theory Spec2Isabelle
  imports Main "HOL-Library.Word"
begin

unbundle bit_operations_syntax

section \<open>Data model\<close>

type_synonym byte = "8 word"
type_synonym u16 = "16 word"
type_synonym rgb = "byte \<times> byte \<times> byte"

text \<open>
  The exceptions \<open>read_tim\<close> and \<open>image_to_tim\<close> of \<open>timview-v2.py\<close> can raise.
  \<open>BadMagic\<close> is \<open>ValueError("Not a TIM file (bad magic)")\<close>,
  \<open>UnsupportedBppMode m\<close> is \<open>ValueError("Unsupported BPP mode: m")\<close>,
  \<open>StructError\<close> is \<open>struct.error\<close> (a short read handed to \<open>struct.unpack\<close>, or a value that
  does not fit the format handed to \<open>struct.pack\<close>), \<open>ValueError\<close> is any other
  \<open>ValueError\<close> (raised by \<open>f.read\<close>, numpy or PIL), \<open>IndexError\<close> is an out-of-range array
  index, \<open>NotImplementedError\<close> is the encoder's refusal of a bit depth other than 4 or 8, and
  \<open>NoPalette\<close> is \<open>ValueError("Image has no palette")\<close>.
\<close>

datatype error =
    BadMagic
  | UnsupportedBppMode nat
  | StructError
  | ValueError
  | IndexError
  | NotImplementedError
  | NoPalette

text \<open>
  The decoder's result: the size and the row-major RGB pixels of the image it returns. The
  construction of the PIL image from these arrays is not part of the model.
\<close>

record decoded_image =
  img_width :: nat
  img_height :: nat
  img_pixels :: "rgb list"

text \<open>
  The encoder's input: a palette-mode image. \<open>src_size\<close> is \<open>image.size\<close>,
  \<open>src_palette\<close> is \<open>image.getpalette()\<close> (a flat list of R, G, B values, or \<open>None\<close>) and
  \<open>src_pixels\<close> is \<open>np.array(image)\<close> flattened row by row (one \<open>uint8\<close> index per pixel).
  An image of another mode is first converted by PIL (\<open>image.convert('P', ...)\<close>); the model
  starts after that conversion. Arrays of \<open>uint16\<close> are laid out low byte first, as on the
  little-endian hosts the program runs on.
\<close>

record indexed_image =
  src_width :: nat
  src_height :: nat
  src_palette :: "int list option"
  src_pixels :: "byte list"

section \<open>Little-endian fields (\<open>struct\<close>)\<close>

fun le_nat :: "byte list \<Rightarrow> nat" where
  "le_nat [] = 0"
| "le_nat (b # bs) = unat b + 256 * le_nat bs"

text \<open>\<open>struct.unpack("<I", b)[0]\<close>: exactly four bytes, or \<open>struct.error\<close>.\<close>

definition unpack_I :: "byte list \<Rightarrow> error + nat" where
  "unpack_I b = (if length b = 4 then Inr (le_nat b) else Inl StructError)"

text \<open>\<open>struct.unpack("<4H", b)\<close>: exactly eight bytes, or \<open>struct.error\<close>.\<close>

definition unpack_4H :: "byte list \<Rightarrow> error + (nat \<times> nat \<times> nat \<times> nat)" where
  "unpack_4H b =
     (if length b = 8
      then Inr (le_nat (take 2 b), le_nat (take 2 (drop 2 b)),
                le_nat (take 2 (drop 4 b)), le_nat (take 2 (drop 6 b)))
      else Inl StructError)"

fun le_bytes :: "nat \<Rightarrow> nat \<Rightarrow> byte list" where
  "le_bytes 0 v = []"
| "le_bytes (Suc k) v = of_nat (v mod 256) # le_bytes k (v div 256)"

text \<open>\<open>struct.pack("<I", v)\<close> and \<open>struct.pack("<4H", a, b, c, d)\<close>: \<open>struct.error\<close> when a
  value does not fit its field.\<close>

definition pack_I :: "nat \<Rightarrow> error + byte list" where
  "pack_I v = (if v < 2 ^ 32 then Inr (le_bytes 4 v) else Inl StructError)"

definition pack_4H :: "nat \<Rightarrow> nat \<Rightarrow> nat \<Rightarrow> nat \<Rightarrow> error + byte list" where
  "pack_4H a b c d =
     (if a < 2 ^ 16 \<and> b < 2 ^ 16 \<and> c < 2 ^ 16 \<and> d < 2 ^ 16
      then Inr (le_bytes 2 a @ le_bytes 2 b @ le_bytes 2 c @ le_bytes 2 d)
      else Inl StructError)"

section \<open>File reads and numpy arrays\<close>

text \<open>
  \<open>f.read(n)\<close> on a binary file whose unread bytes are \<open>f\<close>: the bytes read and the bytes
  left. A short file gives a short read, \<open>n = -1\<close> reads to the end, and a buffered reader
  refuses \<open>n < -1\<close> with \<open>ValueError\<close>.
\<close>

definition f_read :: "int \<Rightarrow> byte list \<Rightarrow> error + (byte list \<times> byte list)" where
  "f_read n f =
     (if n < - 1 then Inl ValueError
      else if n = - 1 then Inr (f, [])
      else Inr (take (nat n) f, drop (nat n) f))"

fun u16_items :: "byte list \<Rightarrow> u16 list" where
  "u16_items (lo # hi # bs) = of_nat (le_nat [lo, hi]) # u16_items bs"
| "u16_items _ = []"

text \<open>\<open>np.frombuffer(data, dtype=np.uint16)\<close>: \<open>ValueError\<close> on an odd number of bytes.\<close>

definition frombuffer_u16 :: "byte list \<Rightarrow> error + u16 list" where
  "frombuffer_u16 data =
     (if length data mod 2 = 0 then Inr (u16_items data) else Inl ValueError)"

text \<open>
  \<open>a.reshape((-1, w))\<close> on a flat array: numpy raises when \<open>w = 0\<close> or when the size is not a
  multiple of \<open>w\<close>; otherwise row \<open>r\<close> holds the items \<open>r * w ..< r * w + w\<close>.
\<close>

definition reshape_rows :: "'a list \<Rightarrow> nat \<Rightarrow> 'a list list option" where
  "reshape_rows a w =
     (if w = 0 \<or> length a mod w \<noteq> 0 then None
      else Some (map (\<lambda>r. take w (drop (r * w) a)) [0..<length a div w]))"

text \<open>\<open>palette[pixels]\<close>: every index must be inside the palette, or \<open>IndexError\<close>.\<close>

definition take_indices :: "'a list \<Rightarrow> byte list \<Rightarrow> error + 'a list" where
  "take_indices palette pixels =
     (if list_all (\<lambda>i. unat i < length palette) pixels
      then Inr (map (\<lambda>i. palette ! unat i) pixels)
      else Inl IndexError)"

section \<open>The decoder: \<open>read_tim\<close>\<close>

text \<open>Magic and flags: the bit depth and whether a CLUT follows, with the unread bytes.\<close>

definition bpp_of_mode :: "nat \<Rightarrow> nat option" where
  "bpp_of_mode bpp_mode =
     (if bpp_mode = 0 then Some 4 else if bpp_mode = 1 then Some 8
      else if bpp_mode = 2 then Some 16 else if bpp_mode = 3 then Some 24 else None)"

definition read_header :: "byte list \<Rightarrow> error + (nat \<times> bool \<times> byte list)" where
  "read_header f =
     (case unpack_I (take 4 f) of Inl e \<Rightarrow> Inl e
      | Inr magic \<Rightarrow>
          if magic \<noteq> 0x10 then Inl BadMagic
          else (case unpack_I (take 4 (drop 4 f)) of Inl e \<Rightarrow> Inl e
            | Inr flags \<Rightarrow>
                let has_clut = (flags AND 0x08 \<noteq> 0);
                    bpp_mode = flags AND 0x07
                in (case bpp_of_mode bpp_mode of
                      None \<Rightarrow> Inl (UnsupportedBppMode bpp_mode)
                    | Some bpp \<Rightarrow> Inr (bpp, has_clut, drop 8 f))))"

text \<open>The CLUT reshape with its fallback (\<open>try\<close> / \<open>except\<close>): one row holding everything.\<close>

definition reshape_clut :: "u16 list \<Rightarrow> nat \<Rightarrow> u16 list list" where
  "reshape_clut clut_colors clut_w =
     (case reshape_rows clut_colors clut_w of Some clut \<Rightarrow> clut | None \<Rightarrow> [clut_colors])"

text \<open>The CLUT block: the table, the header's \<open>clut_w\<close> and \<open>clut_h\<close>, and the unread bytes.\<close>

definition read_clut :: "byte list \<Rightarrow> error + (u16 list list \<times> nat \<times> nat \<times> byte list)" where
  "read_clut f =
     (case unpack_I (take 4 f) of Inl e \<Rightarrow> Inl e
      | Inr clut_block_size \<Rightarrow>
          (case unpack_4H (take 8 (drop 4 f)) of Inl e \<Rightarrow> Inl e
           | Inr (clut_x, clut_y, clut_w, clut_h) \<Rightarrow>
               (case f_read (int clut_block_size - 12) (drop 12 f) of Inl e \<Rightarrow> Inl e
                | Inr (clut_data, rest) \<Rightarrow>
                    (case frombuffer_u16 clut_data of Inl e \<Rightarrow> Inl e
                     | Inr clut_colors \<Rightarrow>
                         Inr (reshape_clut clut_colors clut_w, clut_w, clut_h, rest)))))"

text \<open>
  \<open>if palette_index >= len(clut): palette_index = 0\<close>, then \<open>clut[palette_index]\<close>: a
  negative index counts from the last row, and an index outside the table is \<open>IndexError\<close>.
\<close>

definition select_palette :: "u16 list list \<Rightarrow> int \<Rightarrow> error + u16 list" where
  "select_palette clut palette_index =
     (let n = int (length clut);
          palette_index = (if palette_index \<ge> n then 0 else palette_index);
          j = (if palette_index < 0 then n + palette_index else palette_index)
      in if 0 \<le> j \<and> j < n then Inr (clut ! nat j) else Inl IndexError)"

text \<open>The decoder's width in pixels, from the stored width field.\<close>

definition pixel_width :: "nat \<Rightarrow> nat \<Rightarrow> nat" where
  "pixel_width bpp w_words =
     (if bpp = 4 then w_words * 4 else if bpp = 8 then w_words * 2 else w_words)"

text \<open>The image block's header: width in pixels, height, and the pixel payload.\<close>

definition read_image_header :: "nat \<Rightarrow> byte list \<Rightarrow> error + (nat \<times> nat \<times> byte list)" where
  "read_image_header bpp f =
     (case unpack_I (take 4 f) of Inl e \<Rightarrow> Inl e
      | Inr img_block_size \<Rightarrow>
          (case unpack_4H (take 8 (drop 4 f)) of Inl e \<Rightarrow> Inl e
           | Inr (x, y, w_words, h) \<Rightarrow> Inr (pixel_width bpp w_words, h, drop 12 f)))"

text \<open>
  The 4bpp loop \<open>for i in range(num_pixels)\<close>: \<open>pixels[i // 2]\<close> is \<open>IndexError\<close> past the
  end of the payload.
\<close>

function unpack_loop :: "byte list \<Rightarrow> nat \<Rightarrow> nat \<Rightarrow> byte list \<Rightarrow> error + byte list" where
  "unpack_loop pixels num_pixels i pixels_unpack =
     (if i < num_pixels then
        (if i div 2 < length pixels then
           (let byte = pixels ! (i div 2)
            in if i AND 1 = 0
               then unpack_loop pixels num_pixels (Suc i) (pixels_unpack[i := byte AND 0x0F])
               else unpack_loop pixels num_pixels (Suc i)
                      (pixels_unpack[i := drop_bit 4 byte AND 0x0F]))
         else Inl IndexError)
      else Inr pixels_unpack)"
  by pat_completeness auto
termination
  by (relation "measure (\<lambda>(pixels, num_pixels, i, pixels_unpack). num_pixels - i)") auto

declare unpack_loop.simps [simp del]

definition unpack_4bpp :: "byte list \<Rightarrow> nat \<Rightarrow> error + byte list" where
  "unpack_4bpp raw_data num_pixels =
     (let bytes_needed = (num_pixels + 1) div 2;
          pixels = take bytes_needed raw_data
      in unpack_loop pixels num_pixels 0 (replicate num_pixels 0))"

text \<open>The palette synthesized when the file has no CLUT.\<close>

definition gray_entry :: "nat \<Rightarrow> u16" where
  "gray_entry i = of_nat ((i AND 0x1F) OR push_bit 5 (i AND 0x1F) OR push_bit 10 (i AND 0x1F))"

definition gray_palette :: "nat \<Rightarrow> u16 list" where
  "gray_palette n = map gray_entry [0..<n]"

text \<open>The channel expansion of a packed color, as \<open>uint16\<close> shifts cast to \<open>uint8\<close>.\<close>

definition expand :: "u16 \<Rightarrow> rgb" where
  "expand c =
     (let r = push_bit 3 (c AND 0x1F);
          g = push_bit 3 (drop_bit 5 c AND 0x1F);
          b = push_bit 3 (drop_bit 10 c AND 0x1F)
      in (ucast r, ucast g, ucast b))"

fun rgb_items :: "byte list \<Rightarrow> rgb list" where
  "rgb_items (r # g # b # bs) = (r, g, b) # rgb_items bs"
| "rgb_items _ = []"

text \<open>The pixel payload of each bit depth, to the image returned.\<close>

definition decode_pixels ::
  "nat \<Rightarrow> u16 list option \<Rightarrow> nat \<Rightarrow> nat \<Rightarrow> byte list \<Rightarrow> error + decoded_image" where
  "decode_pixels bpp selected_palette w h raw_data =
     (if bpp = 4 then
        (case unpack_4bpp raw_data (w * h) of Inl e \<Rightarrow> Inl e
         | Inr pixels \<Rightarrow>
             (case (case selected_palette of
                      None \<Rightarrow> take_indices (gray_palette 16) pixels
                    | Some pal \<Rightarrow> take_indices pal pixels) of Inl e \<Rightarrow> Inl e
              | Inr color_vals \<Rightarrow>
                  Inr \<lparr>img_width = w, img_height = h, img_pixels = map expand color_vals\<rparr>))
      else if bpp = 8 then
        (let pixels = take (w * h) raw_data
         in if length pixels \<noteq> h * w then Inl ValueError
            else (case take_indices
                         (case selected_palette of None \<Rightarrow> gray_palette 256 | Some pal \<Rightarrow> pal)
                         pixels of Inl e \<Rightarrow> Inl e
              | Inr color_vals \<Rightarrow>
                  Inr \<lparr>img_width = w, img_height = h, img_pixels = map expand color_vals\<rparr>))
      else if bpp = 16 then
        (case frombuffer_u16 (take (w * h * 2) raw_data) of Inl e \<Rightarrow> Inl e
         | Inr img_array \<Rightarrow>
             if length img_array \<noteq> h * w then Inl ValueError
             else Inr \<lparr>img_width = w, img_height = h, img_pixels = map expand img_array\<rparr>)
      else if bpp = 24 then
        (let data = take (w * h * 3) raw_data
         in if length data < w * h * 3 then Inl ValueError
            else Inr \<lparr>img_width = w, img_height = h, img_pixels = rgb_items data\<rparr>)
      else Inl NotImplementedError)"

text \<open>The CLUT stage: no palette without the flag, else the selected row.\<close>

definition read_palette ::
  "bool \<Rightarrow> int \<Rightarrow> byte list \<Rightarrow> error + (u16 list option \<times> byte list)" where
  "read_palette has_clut palette_index f =
     (if has_clut then
        (case read_clut f of Inl e \<Rightarrow> Inl e
         | Inr (clut, clut_w, clut_h, rest) \<Rightarrow>
             (case select_palette clut palette_index of Inl e \<Rightarrow> Inl e
              | Inr selected_palette \<Rightarrow> Inr (Some selected_palette, rest)))
      else Inr (None, f))"

definition read_tim :: "byte list \<Rightarrow> int \<Rightarrow> error + decoded_image" where
  "read_tim file palette_index =
     (case read_header file of Inl e \<Rightarrow> Inl e
      | Inr (bpp, has_clut, f1) \<Rightarrow>
          (case read_palette has_clut palette_index f1 of Inl e \<Rightarrow> Inl e
           | Inr (selected_palette, f2) \<Rightarrow>
               (case read_image_header bpp f2 of Inl e \<Rightarrow> Inl e
                | Inr (w, h, raw_data) \<Rightarrow> decode_pixels bpp selected_palette w h raw_data)))"

section \<open>The encoder: \<open>image_to_tim\<close>\<close>

text \<open>\<open>(b << 10) | (g << 5) | r\<close>, masked to 16 bits, on Python integers.\<close>

definition pack_color16 :: "int \<Rightarrow> int \<Rightarrow> int \<Rightarrow> int" where
  "pack_color16 r g b = (push_bit 10 b OR push_bit 5 g OR r) AND 0xFFFF"

text \<open>The quantization of an 8-bit color: each channel shifted right by 3, then packed.\<close>

definition quantize :: "int \<Rightarrow> int \<Rightarrow> int \<Rightarrow> int" where
  "quantize pr pg pb = pack_color16 (drop_bit 3 pr) (drop_bit 3 pg) (drop_bit 3 pb)"

text \<open>Entry \<open>i\<close> of the CLUT written: black where the palette has no color \<open>i\<close>.\<close>

definition clut_entry :: "int list \<Rightarrow> nat \<Rightarrow> int" where
  "clut_entry palette i =
     (let idx = i * 3
      in if idx + 2 \<ge> length palette then pack_color16 0 0 0
         else quantize (palette ! idx) (palette ! (idx + 1)) (palette ! (idx + 2)))"

text \<open>\<open>np.array(clut_colors, dtype=np.uint16).tobytes()\<close>: two bytes per color, low byte first.\<close>

definition u16_bytes :: "u16 \<Rightarrow> byte list" where
  "u16_bytes c = le_bytes 2 (unat c)"

definition clut_tobytes :: "int list \<Rightarrow> byte list" where
  "clut_tobytes clut_colors = concat (map (\<lambda>c. u16_bytes (word_of_int c)) clut_colors)"

text \<open>\<open>np.clip(a, lo, hi)\<close> on one item.\<close>

definition clip :: "byte \<Rightarrow> byte \<Rightarrow> byte \<Rightarrow> byte" where
  "clip x lo hi = min (max x lo) hi"

text \<open>
  The 4bpp loop \<open>for i in range(0, len(flat_pixels), 2)\<close>; \<open>bytearray.append\<close> raises
  \<open>ValueError\<close> on a value outside \<open>range(256)\<close>.
\<close>

function pack_loop :: "byte list \<Rightarrow> nat \<Rightarrow> byte list \<Rightarrow> error + byte list" where
  "pack_loop flat_pixels i packed =
     (if i < length flat_pixels then
        (let first = uint (flat_pixels ! i);
             second = (if i + 1 < length flat_pixels then uint (flat_pixels ! (i + 1)) else 0);
             v = push_bit 4 second OR first
         in if 0 \<le> v \<and> v < 256
            then pack_loop flat_pixels (i + 2) (packed @ [word_of_int v])
            else Inl ValueError)
      else Inr packed)"
  by pat_completeness auto
termination
  by (relation "measure (\<lambda>(flat_pixels, i, packed). length flat_pixels - i)") auto

declare pack_loop.simps [simp del]

text \<open>The stored width field and the pixel bytes of the image block.\<close>

definition encode_pixels :: "nat \<Rightarrow> nat \<Rightarrow> byte list \<Rightarrow> error + (nat \<times> byte list)" where
  "encode_pixels bpp width pixels =
     (if bpp = 4 then
        (let w_words = (width + 3) div 4;
             flat_pixels = map (\<lambda>p. clip p 0 15) pixels
         in case pack_loop flat_pixels 0 [] of Inl e \<Rightarrow> Inl e
            | Inr pixel_bytes \<Rightarrow> Inr (w_words, pixel_bytes))
      else
        (let w_words = (width + 1) div 2
         in Inr (w_words, pixels)))"

text \<open>\<open>header += struct.pack(...)\<close>: the bytes so far, extended, unless either step raised.\<close>

definition append_packed :: "error + byte list \<Rightarrow> error + byte list \<Rightarrow> error + byte list" where
  "append_packed header packed =
     (case header of Inl e \<Rightarrow> Inl e
      | Inr h \<Rightarrow> (case packed of Inl e \<Rightarrow> Inl e | Inr p \<Rightarrow> Inr (h @ p)))"

text \<open>Magic, flags and the CLUT block, as the encoder assembles them.\<close>

definition clut_header :: "int list \<Rightarrow> nat \<Rightarrow> error + byte list" where
  "clut_header palette bpp =
     (let pal_len = (if bpp = 4 then 16 else 256);
          clut_colors = map (clut_entry palette) [0..<pal_len];
          clut_data = clut_tobytes clut_colors;
          clut_w = (if bpp = 4 then 16 else 256);
          clut_h = 1;
          header = pack_I 0x10;
          flags_val = 0x08 OR (if bpp = 4 then 0 else 1);
          header = append_packed header (pack_I flags_val);
          clut_block_size = 12 + length clut_data;
          header = append_packed header (pack_I clut_block_size);
          header = append_packed header (pack_4H 0 0 clut_w clut_h)
      in append_packed header (Inr clut_data))"

definition image_to_tim :: "indexed_image \<Rightarrow> nat \<Rightarrow> error + byte list" where
  "image_to_tim img bpp =
     (if bpp \<noteq> 4 \<and> bpp \<noteq> 8 then Inl NotImplementedError
      else (case src_palette img of None \<Rightarrow> Inl NoPalette
        | Some palette \<Rightarrow>
            (case clut_header palette bpp of Inl e \<Rightarrow> Inl e
             | Inr header \<Rightarrow>
                 (case encode_pixels bpp (src_width img) (src_pixels img) of Inl e \<Rightarrow> Inl e
                  | Inr (w_words, pixel_bytes) \<Rightarrow>
                      (let img_block_size = 12 + length pixel_bytes;
                           header = append_packed (Inr header) (pack_I img_block_size);
                           header = append_packed header (pack_4H 0 0 w_words (src_height img))
                       in append_packed header (Inr pixel_bytes))))))"

section \<open>Descriptions used in the statements\<close>

text \<open>
  The index of pixel \<open>i\<close> as the 4bpp decoding is described: from byte \<open>i div 2\<close>, its low
  nibble for an even \<open>i\<close> and its high nibble for an odd one.
\<close>

definition nibble_of :: "byte list \<Rightarrow> nat \<Rightarrow> byte" where
  "nibble_of pixels i =
     (if i mod 2 = 0 then pixels ! (i div 2) AND 0x0F else drop_bit 4 (pixels ! (i div 2)) AND 0x0F)"

text \<open>
  Byte \<open>k\<close> of the 4bpp packing as it is described: the second index of pair \<open>k\<close> in the high
  nibble (0 when the pair has no second index), the first in the low nibble.
\<close>

definition pair_byte :: "byte list \<Rightarrow> nat \<Rightarrow> byte" where
  "pair_byte flat k =
     push_bit 4 (if 2 * k + 1 < length flat then flat ! (2 * k + 1) else 0) OR flat ! (2 * k)"

text \<open>
  The byte layout of a TIM file with a CLUT: magic, flags, the CLUT block (size, origin, width,
  height, colors) and the image block (size, origin, width field, height, pixel bytes).
\<close>

definition tim_layout ::
  "nat \<Rightarrow> nat \<Rightarrow> nat \<Rightarrow> byte list \<Rightarrow> nat \<Rightarrow> nat \<Rightarrow> nat \<Rightarrow> byte list \<Rightarrow> byte list" where
  "tim_layout flags clut_w clut_h clut_data img_block_size w_words h pixel_bytes =
     le_bytes 4 0x10 @ le_bytes 4 flags @
     le_bytes 4 (12 + length clut_data) @
     (le_bytes 2 0 @ le_bytes 2 0 @ le_bytes 2 clut_w @ le_bytes 2 clut_h) @ clut_data @
     le_bytes 4 img_block_size @
     (le_bytes 2 0 @ le_bytes 2 0 @ le_bytes 2 w_words @ le_bytes 2 h) @ pixel_bytes"

section \<open>Bit fields of packed colors\<close>

lemma mask5_u16: "(0x1F :: u16) = mask 5"
  by (simp add: mask_eq_exp_minus_1)

lemma mask5_nat: "(0x1F :: nat) = mask 5"
  by (simp add: mask_eq_exp_minus_1)

lemma mask16_int: "(0xFFFF :: int) = mask 16"
  by (simp add: mask_eq_exp_minus_1)

lemma mod32_nat: "(i :: nat) mod 32 = take_bit 5 i"
  by (simp add: take_bit_eq_mod)

lemma expand_fields:
  "expand c =
     (ucast (push_bit 3 (take_bit 5 c)),
      ucast (push_bit 3 (take_bit 5 (drop_bit 5 c))),
      ucast (push_bit 3 (take_bit 5 (drop_bit 10 c))))"
  by (simp only: expand_def Let_def mask5_u16 take_bit_eq_mask)

lemma quantize_fields:
  "quantize r g b =
     take_bit 16 (push_bit 10 (drop_bit 3 b) OR push_bit 5 (drop_bit 3 g) OR drop_bit 3 r)"
  by (simp only: quantize_def pack_color16_def mask16_int take_bit_eq_mask)

lemma quantize_expand_exact:
  assumes "\<not> bit c 15"
  shows "(case expand c of (r, g, b) \<Rightarrow> quantize (uint r) (uint g) (uint b)) = uint c"
proof -
  have hi: "\<not> bit c n" if "15 \<le> n" for n
  proof (cases "n = 15")
    case True
    with assms show ?thesis by simp
  next
    case False
    with that have "16 \<le> n" by simp
    then show ?thesis by (auto dest: bit_imp_le_length)
  qed
  show ?thesis
    unfolding expand_fields quantize_fields prod.case
  proof (rule bit_eqI)
    fix n :: nat
    consider "n < 5" | "5 \<le> n" "n < 10" | "10 \<le> n" "n < 15" | "15 \<le> n"
      by linarith
    then show "bit (take_bit 16
            (push_bit 10 (drop_bit 3 (uint (ucast (push_bit 3 (take_bit 5 (drop_bit 10 c))) :: byte))) OR
             push_bit 5 (drop_bit 3 (uint (ucast (push_bit 3 (take_bit 5 (drop_bit 5 c))) :: byte))) OR
             drop_bit 3 (uint (ucast (push_bit 3 (take_bit 5 c)) :: byte)))) n = bit (uint c) n"
    proof cases
      case 1
      then show ?thesis by (auto simp add: bit_simps)
    next
      case 2
      then show ?thesis by (auto simp add: bit_simps)
    next
      case 3
      then show ?thesis by (auto simp add: bit_simps)
    next
      case 4
      then show ?thesis using hi [of n] by (auto simp add: bit_simps)
    qed
  qed
qed

lemma expand_quantize_take_bit:
  "expand (word_of_int (quantize (take_bit 8 r) (take_bit 8 g) (take_bit 8 b))) =
     (word_of_int (push_bit 3 (drop_bit 3 (take_bit 8 r))),
      word_of_int (push_bit 3 (drop_bit 3 (take_bit 8 g))),
      word_of_int (push_bit 3 (drop_bit 3 (take_bit 8 b))))"
  unfolding expand_fields quantize_fields
  apply (simp only: prod.inject)
  apply (intro conjI)
  subgoal by (rule bit_word_eqI) (auto simp add: bit_simps)
  subgoal by (rule bit_word_eqI) (auto simp add: bit_simps)
  subgoal by (rule bit_word_eqI) (auto simp add: bit_simps)
  done

lemma expand_quantize_truncates:
  assumes "0 \<le> r" "r < 256" "0 \<le> g" "g < 256" "0 \<le> b" "b < 256"
  shows "expand (word_of_int (quantize r g b)) =
           (word_of_int (8 * (r div 8)), word_of_int (8 * (g div 8)), word_of_int (8 * (b div 8)))"
proof -
  have r: "take_bit 8 r = r" and g: "take_bit 8 g = g" and b: "take_bit 8 b = b"
    using assms by (simp_all add: take_bit_int_eq_self)
  have e: "push_bit 3 (drop_bit 3 k) = 8 * (k div 8)" for k :: int
    by (simp add: push_bit_eq_mult drop_bit_eq_div)
  show ?thesis
    using expand_quantize_take_bit [of r g b] by (simp only: r g b e)
qed

lemma uint_truncated_channel:
  assumes "0 \<le> k" "k < 256"
  shows "uint (word_of_int (8 * (k div 8)) :: byte) = 8 * (k div 8)"
proof -
  have "0 \<le> 8 * (k div 8)" "8 * (k div 8) < 256"
    using assms by auto
  then have "take_bit LENGTH(8) (8 * (k div 8)) = 8 * (k div 8)"
    by (simp add: take_bit_int_eq_self)
  moreover have "uint (word_of_int (8 * (k div 8)) :: byte) = take_bit LENGTH(8) (8 * (k div 8))"
    by (rule uint_word_of_int_eq)
  ultimately show ?thesis
    by (simp only:)
qed

lemma gray_entry_fields:
  "gray_entry i = of_nat (take_bit 5 i OR push_bit 5 (take_bit 5 i) OR push_bit 10 (take_bit 5 i))"
  by (simp only: gray_entry_def mask5_nat take_bit_eq_mask)

lemma gray_entry_red: "gray_entry i AND 0x1F = of_nat (i mod 32)"
  unfolding gray_entry_fields mask5_u16 mod32_nat
  by (rule bit_word_eqI) (auto simp add: bit_simps)

lemma gray_entry_green: "drop_bit 5 (gray_entry i) AND 0x1F = of_nat (i mod 32)"
  unfolding gray_entry_fields mask5_u16 mod32_nat
  by (rule bit_word_eqI) (auto simp add: bit_simps)

lemma gray_entry_blue: "drop_bit 10 (gray_entry i) AND 0x1F = of_nat (i mod 32)"
  unfolding gray_entry_fields mask5_u16 mod32_nat
  by (rule bit_word_eqI) (auto simp add: bit_simps)

lemma gray_entry_period: "gray_entry (i + 32) = gray_entry i"
proof -
  have "take_bit 5 (i + 32) = take_bit 5 i"
    by (simp add: take_bit_eq_mod)
  then show ?thesis by (simp only: gray_entry_fields)
qed

lemma gray_palette_nth: "i < n \<Longrightarrow> gray_palette n ! i = gray_entry i"
  by (simp add: gray_palette_def)

section \<open>The 4bpp loops in closed form\<close>

lemma unpack_loop_ok:
  assumes "n \<le> 2 * length pixels" "length acc = n" "i \<le> n"
  shows "unpack_loop pixels n i acc = Inr (take i acc @ map (nibble_of pixels) [i..<n])"
  using assms
proof (induction pixels n i acc rule: unpack_loop.induct)
  case (1 pixels n i acc)
  show ?case
  proof (cases "i < n")
    case False
    with 1 show ?thesis by (subst unpack_loop.simps) simp
  next
    case True
    with 1(3) have d: "i div 2 < length pixels" by linarith
    let ?v = "nibble_of pixels i"
    have step: "unpack_loop pixels n i acc = unpack_loop pixels n (Suc i) (acc[i := ?v])"
      using True d by (subst unpack_loop.simps) (simp add: nibble_of_def Let_def and_one_eq)
    have "unpack_loop pixels n (Suc i) (acc[i := ?v]) =
            Inr (take (Suc i) (acc[i := ?v]) @ map (nibble_of pixels) [Suc i..<n])"
    proof (cases "i AND 1 = 0")
      case e: True
      have "acc[i := ?v] = acc[i := pixels ! (i div 2) AND 0x0F]"
        using e by (simp add: nibble_of_def and_one_eq)
      then show ?thesis
        using 1(1) [OF True d refl e] 1(3,4) True by simp
    next
      case e: False
      have "acc[i := ?v] = acc[i := drop_bit 4 (pixels ! (i div 2)) AND 0x0F]"
        using e by (simp add: nibble_of_def and_one_eq)
      then show ?thesis
        using 1(2) [OF True d refl e] 1(3,4) True by simp
    qed
    moreover have "take (Suc i) (acc[i := ?v]) = take i acc @ [?v]"
      using True 1(4) by (simp add: take_Suc_conv_app_nth)
    moreover have "[i..<n] = i # [Suc i..<n]"
      using True by (simp add: upt_conv_Cons)
    ultimately show ?thesis
      using step by simp
  qed
qed

lemma unpack_loop_short:
  assumes "2 * length pixels < n" "i < n"
  shows "unpack_loop pixels n i acc = Inl IndexError"
  using assms
proof (induction pixels n i acc rule: unpack_loop.induct)
  case (1 pixels n i acc)
  show ?case
  proof (cases "i div 2 < length pixels")
    case False
    with 1(4) show ?thesis by (subst unpack_loop.simps) simp
  next
    case d: True
    with 1(3) have s: "Suc i < n" by linarith
    show ?thesis
    proof (cases "i AND 1 = 0")
      case e: True
      show ?thesis
        using 1(1) [OF 1(4) d refl e 1(3) s] 1(4) d e
        by (subst unpack_loop.simps) (simp add: Let_def)
    next
      case e: False
      show ?thesis
        using 1(2) [OF 1(4) d refl e 1(3) s] 1(4) d e
        by (subst unpack_loop.simps) (simp add: Let_def)
    qed
  qed
qed

lemma unpack_4bpp_eq:
  "unpack_4bpp raw_data n =
     (if (n + 1) div 2 \<le> length raw_data then Inr (map (nibble_of raw_data) [0..<n])
      else Inl IndexError)"
proof (cases "(n + 1) div 2 \<le> length raw_data")
  case True
  let ?pixels = "take ((n + 1) div 2) raw_data"
  have len: "length ?pixels = (n + 1) div 2" using True by simp
  have "unpack_loop ?pixels n 0 (replicate n 0) =
          Inr (take 0 (replicate n 0) @ map (nibble_of ?pixels) [0..<n])"
    by (rule unpack_loop_ok) (use len in simp_all)
  moreover have "map (nibble_of ?pixels) [0..<n] = map (nibble_of raw_data) [0..<n]"
    by (rule map_cong) (auto simp add: nibble_of_def)
  ultimately show ?thesis using True by (simp add: unpack_4bpp_def Let_def)
next
  case False
  let ?pixels = "take ((n + 1) div 2) raw_data"
  have "2 * length ?pixels < n" "0 < n" using False by auto
  then have "unpack_loop ?pixels n 0 (replicate n 0) = Inl IndexError"
    by (rule unpack_loop_short)
  then show ?thesis using False by (simp add: unpack_4bpp_def Let_def)
qed

lemma nibble_int_bound:
  assumes "(f :: byte) \<le> 15" "(s :: byte) \<le> 15"
  shows "0 \<le> push_bit 4 (uint s) OR uint f" "push_bit 4 (uint s) OR uint f < 256"
proof -
  have f: "uint f < 2 ^ 4" and s: "uint s < 2 ^ 4"
    using assms by (simp_all add: word_le_def)
  show "0 \<le> push_bit 4 (uint s) OR uint f" by simp
  have "push_bit 4 (uint s) < 2 ^ 8"
    using s by (simp add: push_bit_eq_mult)
  moreover have "uint f < 2 ^ 8" using f by simp
  ultimately have "push_bit 4 (uint s) OR uint f < 2 ^ 8"
    by (intro OR_upper) simp_all
  then show "push_bit 4 (uint s) OR uint f < 256" by simp
qed

lemma pack_loop_ok:
  assumes "\<forall>p\<in>set flat. p \<le> 15" "even i"
  shows "pack_loop flat i packed =
           Inr (packed @ map (pair_byte flat) [i div 2..<(length flat + 1) div 2])"
  using assms
proof (induction flat i packed rule: pack_loop.induct)
  case (1 flat i packed)
  show ?case
  proof (cases "i < length flat")
    case False
    with 1(3) have "(length flat + 1) div 2 \<le> i div 2" by presburger
    with False show ?thesis by (subst pack_loop.simps) simp
  next
    case True
    define s :: byte where "s = (if i + 1 < length flat then flat ! (i + 1) else 0)"
    let ?second = "if i + 1 < length flat then uint (flat ! (i + 1)) else 0"
    let ?v = "push_bit 4 ?second OR uint (flat ! i)"
    have su: "?second = uint s" by (simp add: s_def)
    have "flat ! i \<le> 15" using True 1(2) by simp
    moreover have "s \<le> 15" using 1(2) by (simp add: s_def)
    ultimately have v: "0 \<le> ?v \<and> ?v < 256"
      unfolding su using nibble_int_bound [of "flat ! i" s] by simp
    have pb: "(word_of_int ?v :: byte) = pair_byte flat (i div 2)"
      unfolding su using 1(3) by (simp add: pair_byte_def s_def of_int_or_eq of_int_push_bit)
    have lt: "i div 2 < (length flat + 1) div 2"
      using True 1(3) by presburger
    have nx: "(i + 2) div 2 = Suc (i div 2)" by simp
    have "pack_loop flat (i + 2) (packed @ [word_of_int ?v]) =
            Inr ((packed @ [word_of_int ?v]) @
                 map (pair_byte flat) [(i + 2) div 2..<(length flat + 1) div 2])"
      using 1(1) [OF True refl refl refl v 1(2)] 1(3) by simp
    then have "pack_loop flat (i + 2) (packed @ [word_of_int ?v]) =
            Inr (packed @ map (pair_byte flat) [i div 2..<(length flat + 1) div 2])"
      using lt by (simp only: pb nx upt_conv_Cons [OF lt]) simp
    moreover have "pack_loop flat i packed = pack_loop flat (i + 2) (packed @ [word_of_int ?v])"
      using True v by (subst pack_loop.simps) (simp add: Let_def)
    ultimately show ?thesis by simp
  qed
qed

lemma clip_le_15: "clip p 0 15 \<le> 15"
  by (simp add: clip_def)

lemma clip_id: "p \<le> 15 \<Longrightarrow> clip p 0 15 = p"
  by (simp add: clip_def max_def min_def)

lemma encode_pixels_4bpp:
  "encode_pixels 4 width pixels =
     Inr ((width + 3) div 4,
          map (pair_byte (map (\<lambda>p. clip p 0 15) pixels)) [0..<(length pixels + 1) div 2])"
proof -
  have "pack_loop (map (\<lambda>p. clip p 0 15) pixels) 0 [] =
          Inr ([] @ map (pair_byte (map (\<lambda>p. clip p 0 15) pixels))
                     [0 div 2..<(length (map (\<lambda>p. clip p 0 15) pixels) + 1) div 2])"
    by (rule pack_loop_ok) (simp_all add: clip_le_15)
  then show ?thesis by (simp add: encode_pixels_def)
qed


section \<open>Byte layout\<close>

lemma length_le_bytes [simp]: "length (le_bytes k v) = k"
  by (induction k arbitrary: v) simp_all

lemma le_nat_le_bytes: "le_nat (le_bytes k v) = v mod 256 ^ k"
proof (induction k arbitrary: v)
  case 0
  show ?case by simp
next
  case (Suc k)
  have "unat (of_nat (v mod 256) :: byte) = v mod 256"
    by (simp add: unat_of_nat)
  then show ?case
    by (simp add: Suc mod_mult2_eq)
qed

lemma unpack_I_le_bytes: "v < 2 ^ 32 \<Longrightarrow> unpack_I (le_bytes 4 v) = Inr v"
  by (simp add: unpack_I_def le_nat_le_bytes)

lemma unpack_4H_le_bytes:
  assumes "a < 2 ^ 16" "b < 2 ^ 16" "c < 2 ^ 16" "d < 2 ^ 16"
  shows "unpack_4H (le_bytes 2 a @ le_bytes 2 b @ le_bytes 2 c @ le_bytes 2 d) = Inr (a, b, c, d)"
  using assms by (simp add: unpack_4H_def le_nat_le_bytes)

lemma length_clut_tobytes: "length (clut_tobytes cs) = 2 * length cs"
  by (induction cs) (simp_all add: clut_tobytes_def u16_bytes_def)

lemma u16_items_tobytes: "u16_items (clut_tobytes cs) = map word_of_int cs"
proof (induction cs)
  case Nil
  show ?case by (simp add: clut_tobytes_def)
next
  case (Cons c cs)
  have "clut_tobytes (c # cs) = u16_bytes (word_of_int c) @ clut_tobytes cs"
    by (simp add: clut_tobytes_def)
  moreover have "u16_items (u16_bytes w @ bs) = w # u16_items bs" for w bs
  proof -
    obtain lo hi where lh: "u16_bytes w = [lo, hi]"
      by (simp add: u16_bytes_def numeral_2_eq_2)
    then have "le_nat [lo, hi] = unat w mod 256 ^ 2"
      using le_nat_le_bytes [of 2 "unat w"] by (simp add: u16_bytes_def)
    moreover have "unat w < 2 ^ 16" using unsigned_less [of w] by simp
    ultimately have "le_nat [lo, hi] = unat w" by simp
    then show ?thesis using lh by simp
  qed
  ultimately show ?case using Cons by simp
qed

lemma clut_header_eq:
  assumes "bpp = 4 \<or> bpp = 8"
  shows "clut_header palette bpp =
           Inr (le_bytes 4 0x10 @ le_bytes 4 (if bpp = 4 then 8 else 9) @
                le_bytes 4 (12 + 2 * (if bpp = 4 then 16 else 256)) @
                (le_bytes 2 0 @ le_bytes 2 0 @ le_bytes 2 (if bpp = 4 then 16 else 256) @ le_bytes 2 1) @
                clut_tobytes (map (clut_entry palette) [0..<if bpp = 4 then 16 else 256]))"
  using assms
  by (auto simp add: clut_header_def Let_def pack_I_def pack_4H_def append_packed_def
      length_clut_tobytes simp del: le_bytes.simps upt_rec_numeral)

lemma read_header_layout:
  assumes "flags = 8 \<or> flags = 9"
  shows "read_header (le_bytes 4 0x10 @ le_bytes 4 flags @ rest) =
           Inr (if flags = 8 then 4 else 8, True, rest)"
  using assms
  by (auto simp add: read_header_def unpack_I_le_bytes bpp_of_mode_def Let_def
      simp del: le_bytes.simps)

lemma read_clut_layout:
  assumes "clut_w < 2 ^ 16" "clut_h < 2 ^ 16" "12 + length clut_data < 2 ^ 32"
    and "even (length clut_data)"
  shows "read_clut (le_bytes 4 (12 + length clut_data) @
                    (le_bytes 2 0 @ le_bytes 2 0 @ le_bytes 2 clut_w @ le_bytes 2 clut_h) @
                    clut_data @ rest) =
           Inr (reshape_clut (u16_items clut_data) clut_w, clut_w, clut_h, rest)"
  using assms
  by (simp add: read_clut_def unpack_I_le_bytes unpack_4H_le_bytes f_read_def frombuffer_u16_def
      del: le_bytes.simps)

lemma read_image_header_layout:
  assumes "sz < 2 ^ 32" "w_words < 2 ^ 16" "h < 2 ^ 16"
  shows "read_image_header bpp
           (le_bytes 4 sz @ (le_bytes 2 0 @ le_bytes 2 0 @ le_bytes 2 w_words @ le_bytes 2 h) @
            pixel_bytes) =
           Inr (pixel_width bpp w_words, h, pixel_bytes)"
  using assms
  by (simp add: read_image_header_def unpack_I_le_bytes unpack_4H_le_bytes del: le_bytes.simps)

lemma read_tim_layout:
  assumes "flags = 8 \<or> flags = 9"
    and "clut_w < 2 ^ 16" "clut_h < 2 ^ 16" "12 + length clut_data < 2 ^ 32"
    and "even (length clut_data)"
    and "sz < 2 ^ 32" "w_words < 2 ^ 16" "h < 2 ^ 16"
  shows "read_tim (tim_layout flags clut_w clut_h clut_data sz w_words h pixel_bytes) p =
           (case select_palette (reshape_clut (u16_items clut_data) clut_w) p of
              Inl e \<Rightarrow> Inl e
            | Inr pal \<Rightarrow>
                decode_pixels (if flags = 8 then 4 else 8) (Some pal)
                  (pixel_width (if flags = 8 then 4 else 8) w_words) h pixel_bytes)"
proof -
  let ?bpp = "if flags = 8 then 4 else 8 :: nat"
  let ?img = "le_bytes 4 sz @ (le_bytes 2 0 @ le_bytes 2 0 @ le_bytes 2 w_words @ le_bytes 2 h) @
              pixel_bytes"
  let ?f1 = "le_bytes 4 (12 + length clut_data) @
             (le_bytes 2 0 @ le_bytes 2 0 @ le_bytes 2 clut_w @ le_bytes 2 clut_h) @
             clut_data @ ?img"
  have fl: "tim_layout flags clut_w clut_h clut_data sz w_words h pixel_bytes =
                le_bytes 4 0x10 @ le_bytes 4 flags @ ?f1"
    by (simp add: tim_layout_def del: le_bytes.simps)
  have rh: "read_header (le_bytes 4 0x10 @ le_bytes 4 flags @ ?f1) = Inr (?bpp, True, ?f1)"
    using assms(1) by (rule read_header_layout)
  have cl: "read_clut ?f1 = Inr (reshape_clut (u16_items clut_data) clut_w, clut_w, clut_h, ?img)"
    using assms(2-5) by (rule read_clut_layout)
  have im: "read_image_header ?bpp ?img = Inr (pixel_width ?bpp w_words, h, pixel_bytes)"
    using assms(6-8) by (rule read_image_header_layout)
  show ?thesis
  proof (cases "select_palette (reshape_clut (u16_items clut_data) clut_w) p")
    case (Inl e)
    then show ?thesis
      unfolding fl read_tim_def rh
      by (simp only: sum.case prod.case read_palette_def if_True cl)
  next
    case (Inr pal)
    then show ?thesis
      unfolding fl read_tim_def rh
      by (simp only: sum.case prod.case read_palette_def if_True cl im)
  qed
qed

lemma image_to_tim_eq:
  assumes "bpp = 4 \<or> bpp = 8" and "src_palette img = Some palette"
    and "encode_pixels bpp (src_width img) (src_pixels img) = Inr (w_words, pixel_bytes)"
  shows "image_to_tim img bpp =
           (if 12 + length pixel_bytes < 2 ^ 32 \<and> w_words < 2 ^ 16 \<and> src_height img < 2 ^ 16
            then Inr (tim_layout (if bpp = 4 then 8 else 9) (if bpp = 4 then 16 else 256) 1
                       (clut_tobytes (map (clut_entry palette) [0..<if bpp = 4 then 16 else 256]))
                       (12 + length pixel_bytes) w_words (src_height img) pixel_bytes)
            else Inl StructError)"
  using assms
  by (auto simp add: image_to_tim_def clut_header_eq tim_layout_def append_packed_def pack_I_def
      pack_4H_def Let_def length_clut_tobytes simp del: le_bytes.simps upt_rec_numeral)

section \<open>Nibbles and clipping\<close>

lemma low_nibble_le: "(x :: byte) AND 0x0F \<le> 15"
  by (rule word_and_le1)

lemma nibble_of_le: "nibble_of raw i \<le> 15"
  by (simp add: nibble_of_def low_nibble_le)

lemma drop_bit_nibble: "(x :: byte) \<le> 15 \<Longrightarrow> drop_bit 4 x = 0"
proof -
  assume "x \<le> 15"
  then have "unat x \<le> 15" by (simp add: word_le_nat_alt)
  moreover have "unat (drop_bit 4 x) = drop_bit 4 (unat x)" by (rule unat_drop_bit_eq)
  ultimately have "unat (drop_bit 4 x) = 0" by (simp only: drop_bit_eq_div) simp
  then show ?thesis by (simp only: unat_eq_0)
qed

lemma map_clip_id: "\<forall>p\<in>set pixels. p \<le> 15 \<Longrightarrow> map (\<lambda>p. clip p 0 15) pixels = pixels"
  by (induction pixels) (simp_all add: clip_id)

lemma clip_min: "clip p 0 15 = min p 15"
  by (simp add: clip_def max_def)

lemma image_to_tim_4x1:
  "image_to_tim \<lparr>src_width = 4, src_height = 1, src_palette = Some palette,
                  src_pixels = [1, 2, 3, 4]\<rparr> 4 =
     Inr (tim_layout 8 16 1 (clut_tobytes (map (clut_entry palette) [0..<16])) 14 1 1
            [0x21, 0x43])"
proof -
  have "(\<forall>p\<in>set [1, 2, 3, 4 :: byte]. p \<le> 15)"
    by simp
  then have "encode_pixels 4 4 [1, 2, 3, 4] =
      Inr (1, [pair_byte [1, 2, 3, 4] 0, pair_byte [1, 2, 3, 4] (Suc 0)])"
    by (simp only: encode_pixels_4bpp map_clip_id) simp
  moreover have "pair_byte [1, 2, 3, 4] 0 = 0x21" "pair_byte [1, 2, 3, 4] (Suc 0) = 0x43"
    by (simp_all add: pair_byte_def)
  ultimately have "encode_pixels 4 4 [1, 2, 3, 4] = Inr (1, [0x21, 0x43])"
    by (simp only:)
  then show "image_to_tim \<lparr>src_width = 4, src_height = 1, src_palette = Some palette,
                        src_pixels = [1, 2, 3, 4]\<rparr> 4 =
           Inr (tim_layout 8 16 1 (clut_tobytes (map (clut_entry palette) [0..<16])) 14 1 1
                  [0x21, 0x43])"
    by (subst image_to_tim_eq [where palette = palette and w_words = 1 and pixel_bytes = "[0x21, 0x43]"])
       simp_all
qed

section \<open>Decoding what the encoder wrote\<close>

lemma reshape_clut_single:
  assumes "length xs = n" "0 < n"
  shows "reshape_clut xs n = [xs]"
  using assms by (simp add: reshape_clut_def reshape_rows_def)

lemma select_palette_single: "select_palette [xs] 0 = Inr xs"
  by (simp add: select_palette_def)

lemma take_indices_ok:
  assumes "\<forall>i\<in>set pixels. unat i < length palette"
  shows "take_indices palette pixels = Inr (map (\<lambda>i. palette ! unat i) pixels)"
  using assms by (simp add: take_indices_def list_all_iff)

lemma decode_4bpp_ok:
  assumes "length pal = 16" "(w * h + 1) div 2 \<le> length raw_data"
  shows "decode_pixels 4 (Some pal) w h raw_data =
           Inr \<lparr>img_width = w, img_height = h,
                img_pixels = map expand (map (\<lambda>i. pal ! unat i) (map (nibble_of raw_data) [0..<w * h]))\<rparr>"
proof -
  have "unat (nibble_of raw_data i) < length pal" for i
    using nibble_of_le [of raw_data i] assms(1) by (simp add: word_le_nat_alt)
  then have "take_indices pal (map (nibble_of raw_data) [0..<w * h]) =
               Inr (map (\<lambda>i. pal ! unat i) (map (nibble_of raw_data) [0..<w * h]))"
    by (intro take_indices_ok) auto
  then show ?thesis
    using assms(2) by (simp add: decode_pixels_def unpack_4bpp_eq)
qed

lemma decode_8bpp_ok:
  assumes "length pal = 256" "w * h \<le> length raw_data"
  shows "decode_pixels 8 (Some pal) w h raw_data =
           Inr \<lparr>img_width = w, img_height = h,
                img_pixels = map expand (map (\<lambda>i. pal ! unat i) (take (w * h) raw_data))\<rparr>"
proof -
  have "unat i < length pal" for i :: byte
    using unsigned_less [of i] assms(1) by simp
  then have "take_indices pal (take (w * h) raw_data) =
               Inr (map (\<lambda>i. pal ! unat i) (take (w * h) raw_data))"
    by (intro take_indices_ok) auto
  then show ?thesis
    using assms(2) by (simp add: decode_pixels_def Let_def mult.commute)
qed

lemma encode_pixels_length:
  assumes "bpp = 4 \<or> bpp = 8"
  shows "\<exists>pixel_bytes. encode_pixels bpp width pixels =
            Inr (if bpp = 4 then (width + 3) div 4 else (width + 1) div 2, pixel_bytes) \<and>
          length pixel_bytes = (if bpp = 4 then (length pixels + 1) div 2 else length pixels)"
  using assms by (auto simp add: encode_pixels_4bpp) (simp add: encode_pixels_def)

lemma read_tim_encoded:
  assumes "bpp = 4 \<or> bpp = 8" "length cs = (if bpp = 4 then 16 else 256)"
    and "sz < 2 ^ 32" "w_words < 2 ^ 16" "h < 2 ^ 16"
  shows "read_tim (tim_layout (if bpp = 4 then 8 else 9) (if bpp = 4 then 16 else 256) 1
                     (clut_tobytes cs) sz w_words h pixel_bytes) 0 =
           decode_pixels bpp (Some (map word_of_int cs)) (pixel_width bpp w_words) h pixel_bytes"
proof -
  let ?n = "if bpp = 4 then 16 else 256 :: nat"
  let ?flags = "if bpp = 4 then 8 else 9 :: nat"
  have b: "(if ?flags = 8 then 4 else 8) = bpp"
    using assms(1) by auto
  have "reshape_clut (map word_of_int cs) ?n = [map word_of_int cs]"
    using assms(2) by (intro reshape_clut_single) simp_all
  then have "reshape_clut (u16_items (clut_tobytes cs)) ?n = [map word_of_int cs]"
    by (simp only: u16_items_tobytes)
  then have sel: "select_palette (reshape_clut (u16_items (clut_tobytes cs)) ?n) 0 =
      Inr (map word_of_int cs)"
    by (simp only: select_palette_single)
  have "read_tim (tim_layout ?flags ?n 1 (clut_tobytes cs) sz w_words h pixel_bytes) 0 =
          (case select_palette (reshape_clut (u16_items (clut_tobytes cs)) ?n) 0 of
             Inl e \<Rightarrow> Inl e
           | Inr pal \<Rightarrow>
               decode_pixels (if ?flags = 8 then 4 else 8) (Some pal)
                 (pixel_width (if ?flags = 8 then 4 else 8) w_words) h pixel_bytes)"
    using assms by (intro read_tim_layout) (auto simp add: length_clut_tobytes)
  then show ?thesis
    by (simp only: sel b sum.case)
qed


lemma pixel_width_inverse:
  "pixel_width 4 ((w + 3) div 4) = w \<longleftrightarrow> 4 dvd w"
  "pixel_width 8 ((w + 1) div 2) = w \<longleftrightarrow> 2 dvd w"
  unfolding pixel_width_def by simp_all presburger+

section \<open>The CLUT table and the palette row\<close>

lemma reshape_clut_rows:
  assumes "0 < w" "length cs mod w = 0"
  shows "length (reshape_clut cs w) = length cs div w"
    and "r < length cs div w \<Longrightarrow> length (reshape_clut cs w ! r) = w"
    and "r < length cs div w \<Longrightarrow> c < w \<Longrightarrow> reshape_clut cs w ! r ! c = cs ! (r * w + c)"
proof -
  have rc: "reshape_clut cs w = map (\<lambda>r. take w (drop (r * w) cs)) [0..<length cs div w]"
    using assms by (simp add: reshape_clut_def reshape_rows_def)
  show "length (reshape_clut cs w) = length cs div w"
    by (simp add: rc)
  have fit: "r * w + w \<le> length cs" if "r < length cs div w" for r
  proof -
    from that have "Suc r \<le> length cs div w" by simp
    then have "Suc r * w \<le> length cs div w * w" by (rule mult_le_mono1)
    also have "\<dots> \<le> length cs" by simp
    finally show ?thesis by simp
  qed
  show "length (reshape_clut cs w ! r) = w" if "r < length cs div w"
    using that fit [OF that] by (simp add: rc)
  show "reshape_clut cs w ! r ! c = cs ! (r * w + c)" if "r < length cs div w" "c < w"
    using that fit [OF that(1)] by (simp add: rc)
qed

lemma reshape_clut_fallback:
  assumes "w = 0 \<or> length cs mod w \<noteq> 0"
  shows "reshape_clut cs w = [cs]"
  using assms by (auto simp add: reshape_clut_def reshape_rows_def)

lemma read_clut_parts:
  assumes "read_clut f = Inr (clut, clut_w, clut_h, rest)"
  shows "\<exists>clut_block_size x y clut_data clut_colors.
           unpack_I (take 4 f) = Inr clut_block_size \<and>
           unpack_4H (take 8 (drop 4 f)) = Inr (x, y, clut_w, clut_h) \<and>
           f_read (int clut_block_size - 12) (drop 12 f) = Inr (clut_data, rest) \<and>
           frombuffer_u16 clut_data = Inr clut_colors \<and>
           clut = reshape_clut clut_colors clut_w"
  using assms by (auto simp add: read_clut_def split: sum.splits)

lemma read_clut_two_rows:
  "read_clut [20, 0, 0, 0, 0, 0, 0, 0, 2, 0, 1, 0, 1, 0, 2, 0, 3, 0, 4, 0] =
     Inr ([[1, 2], [3, 4]], 2, 1, [])"
  by (simp add: read_clut_def unpack_I_def unpack_4H_def f_read_def frombuffer_u16_def
      reshape_clut_def reshape_rows_def upt_rec)

lemma read_clut_square:
  "read_clut [20, 0, 0, 0, 0, 0, 0, 0, 2, 0, 2, 0, 1, 0, 2, 0, 3, 0, 4, 0] =
     Inr ([[1, 2], [3, 4]], 2, 2, [])"
  by (simp add: read_clut_def unpack_I_def unpack_4H_def f_read_def frombuffer_u16_def
      reshape_clut_def reshape_rows_def upt_rec)

lemma select_palette_clamp:
  "int (length clut) \<le> p \<Longrightarrow> select_palette clut p = select_palette clut 0"
  by (simp add: select_palette_def Let_def)

lemma select_palette_row0: "clut \<noteq> [] \<Longrightarrow> select_palette clut 0 = Inr (clut ! 0)"
  by (simp add: select_palette_def Let_def)



lemma read_tim_select:
  assumes "read_header file = Inr (bpp, True, f1)"
    and "read_clut f1 = Inr (clut, clut_w, clut_h, f2)"
  shows "read_tim file p =
           (case select_palette clut p of Inl e \<Rightarrow> Inl e
            | Inr pal \<Rightarrow>
                (case read_image_header bpp f2 of Inl e \<Rightarrow> Inl e
                 | Inr (w, h, raw_data) \<Rightarrow> decode_pixels bpp (Some pal) w h raw_data))"
  using assms by (simp add: read_tim_def read_palette_def split: sum.splits)

lemma two_row_clut:
  "reshape_clut (u16_items [0, 0, 0xFF, 0x7F, 0x1F, 0, 0xE0, 3]) 2 = [[0, 0x7FFF], [0x1F, 0x3E0]]"
  by (simp add: reshape_clut_def reshape_rows_def upt_rec)

lemma two_row_file:
  "\<exists>f1 f2. read_header (tim_layout 8 2 2 [0, 0, 0xFF, 0x7F, 0x1F, 0, 0xE0, 3] 14 1 1 [0x10, 0x01]) =
             Inr (4, True, f1) \<and>
           read_clut f1 = Inr ([[0, 0x7FFF], [0x1F, 0x3E0]], 2, 2, f2)"
proof -
  let ?d = "[0, 0, 0xFF, 0x7F, 0x1F, 0, 0xE0, 3] :: byte list"
  let ?f2 = "le_bytes 4 14 @ (le_bytes 2 0 @ le_bytes 2 0 @ le_bytes 2 1 @ le_bytes 2 1) @
             [0x10, 0x01]"
  let ?f1 = "le_bytes 4 (12 + length ?d) @
             (le_bytes 2 0 @ le_bytes 2 0 @ le_bytes 2 2 @ le_bytes 2 2) @ ?d @ ?f2"
  have "tim_layout 8 2 2 ?d 14 1 1 [0x10, 0x01] = le_bytes 4 0x10 @ le_bytes 4 8 @ ?f1"
    by (simp add: tim_layout_def del: le_bytes.simps)
  moreover have "read_header (le_bytes 4 0x10 @ le_bytes 4 8 @ ?f1) =
      Inr (if (8 :: nat) = 8 then 4 else 8, True, ?f1)"
    by (rule read_header_layout) simp
  ultimately have "read_header (tim_layout 8 2 2 ?d 14 1 1 [0x10, 0x01]) = Inr (4, True, ?f1)"
    by simp
  moreover have "read_clut ?f1 = Inr (reshape_clut (u16_items ?d) 2, 2, 2, ?f2)"
    by (rule read_clut_layout) simp_all
  ultimately show ?thesis
    unfolding two_row_clut by blast
qed

lemma two_row_decode:
  "read_tim (tim_layout 8 2 2 [0, 0, 0xFF, 0x7F, 0x1F, 0, 0xE0, 3] 14 1 1 [0x10, 0x01]) 0 =
     Inr \<lparr>img_width = 4, img_height = 1,
          img_pixels = [(0, 0, 0), (248, 248, 248), (248, 248, 248), (0, 0, 0)]\<rparr>"
  "read_tim (tim_layout 8 2 2 [0, 0, 0xFF, 0x7F, 0x1F, 0, 0xE0, 3] 14 1 1 [0x10, 0x01]) 1 =
     Inr \<lparr>img_width = 4, img_height = 1,
          img_pixels = [(248, 0, 0), (0, 248, 0), (0, 248, 0), (248, 0, 0)]\<rparr>"
proof -
  have rt: "read_tim (tim_layout 8 2 2 [0, 0, 0xFF, 0x7F, 0x1F, 0, 0xE0, 3] 14 1 1 [0x10, 0x01]) p =
          (case select_palette [[0, 0x7FFF], [0x1F, 0x3E0]] p of Inl e \<Rightarrow> Inl e
           | Inr pal \<Rightarrow> decode_pixels 4 (Some pal) (pixel_width 4 1) 1 [0x10, 0x01])" for p
    by (subst read_tim_layout) (simp_all add: reshape_clut_def reshape_rows_def upt_rec)
  have n: "map (nibble_of [0x10, 0x01]) [0..<4] = [0, 1, 1, 0]"
    by (simp add: nibble_of_def upt_rec)
  show "read_tim (tim_layout 8 2 2 [0, 0, 0xFF, 0x7F, 0x1F, 0, 0xE0, 3] 14 1 1 [0x10, 0x01]) 0 =
     Inr \<lparr>img_width = 4, img_height = 1,
          img_pixels = [(0, 0, 0), (248, 248, 248), (248, 248, 248), (0, 0, 0)]\<rparr>"
    by (subst rt)
      (simp add: select_palette_def pixel_width_def decode_pixels_def unpack_4bpp_eq n
        take_indices_def expand_def)
  show "read_tim (tim_layout 8 2 2 [0, 0, 0xFF, 0x7F, 0x1F, 0, 0xE0, 3] 14 1 1 [0x10, 0x01]) 1 =
     Inr \<lparr>img_width = 4, img_height = 1,
          img_pixels = [(248, 0, 0), (0, 248, 0), (0, 248, 0), (248, 0, 0)]\<rparr>"
    by (subst rt)
      (simp add: select_palette_def pixel_width_def decode_pixels_def unpack_4bpp_eq n
        take_indices_def expand_def)
qed

lemma decode_4bpp_no_clut:
  assumes "(w * h + 1) div 2 \<le> length raw_data"
  shows "decode_pixels 4 None w h raw_data =
           Inr \<lparr>img_width = w, img_height = h,
                img_pixels = map (\<lambda>i. expand (gray_entry (unat (nibble_of raw_data i)))) [0..<w * h]\<rparr>"
proof -
  have lt: "unat (nibble_of raw_data i) < 16" for i
    using nibble_of_le [of raw_data i] by (simp add: word_le_nat_alt)
  then have "take_indices (gray_palette 16) (map (nibble_of raw_data) [0..<w * h]) =
               Inr (map (\<lambda>i. gray_palette 16 ! unat i) (map (nibble_of raw_data) [0..<w * h]))"
    by (intro take_indices_ok) (auto simp add: gray_palette_def)
  then show ?thesis
    using assms lt by (simp add: decode_pixels_def unpack_4bpp_eq gray_palette_nth comp_def)
qed

lemma decode_8bpp_no_clut:
  assumes "w * h \<le> length raw_data"
  shows "decode_pixels 8 None w h raw_data =
           Inr \<lparr>img_width = w, img_height = h,
                img_pixels = map (\<lambda>i. expand (gray_entry (unat i))) (take (w * h) raw_data)\<rparr>"
proof -
  have lt: "unat i < 256" for i :: byte
    using unsigned_less [of i] by simp
  then have "take_indices (gray_palette 256) (take (w * h) raw_data) =
               Inr (map (\<lambda>i. gray_palette 256 ! unat i) (take (w * h) raw_data))"
    by (intro take_indices_ok) (auto simp add: gray_palette_def)
  then show ?thesis
    using assms lt by (simp add: decode_pixels_def Let_def mult.commute gray_palette_nth comp_def)
qed

section \<open>Claims\<close>

text \<open>
  C2. A packed color with bit 15 clear survives expansion followed by quantization unchanged;
  and for 8-bit channels \<open>r\<close>, \<open>g\<close>, \<open>b\<close>, quantization followed by expansion gives channels
  that are below the originals by at most 7.
\<close>

theorem quantize_expand_roundtrip:
  assumes "\<not> bit c 15"
    and "0 \<le> r \<and> r < 256" and "0 \<le> g \<and> g < 256" and "0 \<le> b \<and> b < 256"
  shows "(case expand c of (er, eg, eb) \<Rightarrow> quantize (uint er) (uint eg) (uint eb)) = uint c
       \<and> (case expand (word_of_int (quantize r g b)) of (er, eg, eb) \<Rightarrow>
            uint er \<le> r \<and> r - uint er \<le> 7 \<and>
            uint eg \<le> g \<and> g - uint eg \<le> 7 \<and>
            uint eb \<le> b \<and> b - uint eb \<le> 7)"
proof -
  have "expand (word_of_int (quantize r g b)) =
          (word_of_int (8 * (r div 8)), word_of_int (8 * (g div 8)), word_of_int (8 * (b div 8)))"
    using assms by (simp add: expand_quantize_truncates)
  moreover have "uint (word_of_int (8 * (k div 8)) :: byte) \<le> k
      \<and> k - uint (word_of_int (8 * (k div 8)) :: byte) \<le> 7" if "0 \<le> k \<and> k < 256" for k
  proof -
    have "uint (word_of_int (8 * (k div 8)) :: byte) = 8 * (k div 8)"
      using that by (intro uint_truncated_channel) simp_all
    then show ?thesis
      using that by (simp only:) presburger
  qed
  ultimately show ?thesis
    using assms quantize_expand_exact [of c] by (simp only: prod.case) blast
qed

theorem quantize_expand_roundtrip_witness:
  "\<not> bit (0x4210 :: u16) 15
   \<and> (case expand 0x4210 of (er, eg, eb) \<Rightarrow> quantize (uint er) (uint eg) (uint eb)) = 0x4210
   \<and> (case expand (word_of_int (quantize 255 7 100)) of (er, eg, eb) \<Rightarrow>
        255 - uint er \<le> 7 \<and> 7 - uint eg \<le> 7 \<and> 100 - uint eb \<le> 7)"
  using quantize_expand_roundtrip [of "0x4210" 255 7 100] by (simp add: bit_simps split: prod.splits)

text \<open>
  C8. A file of at least four bytes whose first four bytes, read as a little-endian integer,
  are not 0x10 is rejected with the bad-magic error, whatever the palette index.
\<close>

theorem read_tim_bad_magic:
  assumes "4 \<le> length file" and "le_nat (take 4 file) \<noteq> 0x10"
  shows "read_tim file palette_index = Inl BadMagic"
  using assms by (simp add: read_tim_def read_header_def unpack_I_def)

theorem read_tim_bad_magic_witness:
  "read_tim [0x11, 0, 0, 0, 8, 0, 0, 0] 0 = Inl BadMagic"
  using read_tim_bad_magic [of "[0x11, 0, 0, 0, 8, 0, 0, 0]" 0] by simp

text \<open>
  C10. Entry \<open>i\<close> of the palette synthesized for a file without a CLUT has its red, green and
  blue fields all equal to \<open>i mod 32\<close>, so entry \<open>i + 32\<close> repeats entry \<open>i\<close>; and a 4bpp or
  8bpp payload decoded without a CLUT takes each pixel's color from that palette (of 16 and of
  256 entries).
\<close>

theorem gray_palette_repeats:
  assumes "i < n"
  shows "gray_palette n ! i AND 0x1F = of_nat (i mod 32)
       \<and> drop_bit 5 (gray_palette n ! i) AND 0x1F = of_nat (i mod 32)
       \<and> drop_bit 10 (gray_palette n ! i) AND 0x1F = of_nat (i mod 32)
       \<and> (i + 32 < n \<longrightarrow> gray_palette n ! (i + 32) = gray_palette n ! i)
       \<and> ((w * h + 1) div 2 \<le> length raw_data \<longrightarrow>
            decode_pixels 4 None w h raw_data =
              Inr \<lparr>img_width = w, img_height = h,
                   img_pixels = map (\<lambda>k. expand (gray_palette 16 ! unat (nibble_of raw_data k)))
                                  [0..<w * h]\<rparr>)
       \<and> (w * h \<le> length raw_data \<longrightarrow>
            decode_pixels 8 None w h raw_data =
              Inr \<lparr>img_width = w, img_height = h,
                   img_pixels = map (\<lambda>k. expand (gray_palette 256 ! unat k))
                                  (take (w * h) raw_data)\<rparr>)"
proof -
  have "unat (nibble_of raw_data k) < 16" for k
    using nibble_of_le [of raw_data k] by (simp add: word_le_nat_alt)
  then have a: "gray_palette 16 ! unat (nibble_of raw_data k) = gray_entry (unat (nibble_of raw_data k))" for k
    by (simp add: gray_palette_nth)
  have "unat k < 256" for k :: byte
    using unsigned_less [of k] by simp
  then have b: "gray_palette 256 ! unat k = gray_entry (unat k)" for k :: byte
    by (simp add: gray_palette_nth)
  show ?thesis
    using assms
    by (simp add: gray_palette_nth gray_entry_red gray_entry_green gray_entry_blue
        gray_entry_period a b decode_4bpp_no_clut decode_8bpp_no_clut)
qed

theorem gray_palette_repeats_witness:
  "gray_palette 256 ! 223 AND 0x1F = 31 \<and> gray_palette 256 ! 255 = gray_palette 256 ! 223 \<and>
   decode_pixels 8 None 2 1 [0x21, 0x43] =
     Inr \<lparr>img_width = 2, img_height = 1,
          img_pixels = [expand (gray_palette 256 ! 33), expand (gray_palette 256 ! 67)]\<rparr>"
  using gray_palette_repeats [of 223 256 2 1 "[0x21, 0x43]"] by simp

text \<open>
  C3. When the payload holds the \<open>(n + 1) div 2\<close> bytes that \<open>n\<close> pixels need, the 4bpp
  unpacking returns \<open>n\<close> indices, and the index of pixel \<open>i < n\<close> is the low nibble of byte
  \<open>i div 2\<close> when \<open>i\<close> is even and its high nibble when \<open>i\<close> is odd.
\<close>

theorem unpack_4bpp_nibbles:
  assumes "(n + 1) div 2 \<le> length raw_data" and "i < n"
  shows "\<exists>pixels. unpack_4bpp raw_data n = Inr pixels \<and> length pixels = n \<and>
           pixels ! i =
             (if even i then raw_data ! (i div 2) AND 0x0F
              else drop_bit 4 (raw_data ! (i div 2)) AND 0x0F)"
  using assms by (simp add: unpack_4bpp_eq nibble_of_def even_iff_mod_2_eq_zero)

theorem unpack_4bpp_nibbles_witness:
  "\<exists>pixels. unpack_4bpp [0x21, 0x43] 4 = Inr pixels \<and> length pixels = 4 \<and> pixels ! 3 = 4"
  using unpack_4bpp_nibbles [of 4 "[0x21, 0x43]" 3] by simp

text \<open>
  C7. For indices in 0..15, the 4bpp packing stores the width field \<open>(width + 3) div 4\<close> and
  one byte per pair of consecutive indices, the second index in the high nibble and the first in
  the low nibble; with an odd number of indices the last byte is the last index, its high nibble
  0. The 4x1 image with indices 1, 2, 3, 4 is written, for any palette, with width field 1 and
  pixel bytes 0x21, 0x43.
\<close>

theorem pack_4bpp_pairs:
  assumes "\<forall>p\<in>set pixels. p \<le> 15"
  shows "(\<exists>packed. encode_pixels 4 width pixels = Inr ((width + 3) div 4, packed) \<and>
            length packed = (length pixels + 1) div 2 \<and>
            (\<forall>k. 2 * k + 1 < length pixels \<longrightarrow>
               packed ! k = push_bit 4 (pixels ! (2 * k + 1)) OR pixels ! (2 * k)) \<and>
            (odd (length pixels) \<longrightarrow>
               last packed = pixels ! (length pixels - 1) \<and> drop_bit 4 (last packed) = 0))
       \<and> image_to_tim \<lparr>src_width = 4, src_height = 1, src_palette = Some palette,
                        src_pixels = [1, 2, 3, 4]\<rparr> 4 =
           Inr (tim_layout 8 16 1 (clut_tobytes (map (clut_entry palette) [0..<16])) 14 1 1
                  [0x21, 0x43])"
proof -
  let ?packed = "map (pair_byte pixels) [0..<(length pixels + 1) div 2]"
  have enc: "encode_pixels 4 width pixels = Inr ((width + 3) div 4, ?packed)"
    using assms by (simp add: encode_pixels_4bpp map_clip_id)
  have pairs: "?packed ! k = push_bit 4 (pixels ! (2 * k + 1)) OR pixels ! (2 * k)"
    if "2 * k + 1 < length pixels" for k
  proof -
    from that have "k < (length pixels + 1) div 2" by linarith
    then show ?thesis using that by (simp add: pair_byte_def)
  qed
  have odd_last: "last ?packed = pixels ! (length pixels - 1) \<and> drop_bit 4 (last ?packed) = 0"
    if "odd (length pixels)"
  proof -
    from that obtain m where m: "length pixels = 2 * m + 1" by (auto elim: oddE)
    then have "(length pixels + 1) div 2 = Suc m" by simp
    then have "last ?packed = pair_byte pixels m" by simp
    also have "\<dots> = pixels ! (length pixels - 1)" using m by (simp add: pair_byte_def)
    finally have l: "last ?packed = pixels ! (length pixels - 1)" .
    have "pixels ! (length pixels - 1) \<in> set pixels" using m by simp
    with assms have "pixels ! (length pixels - 1) \<le> 15" by blast
    with l show ?thesis by (simp add: drop_bit_nibble)
  qed
  have "image_to_tim \<lparr>src_width = 4, src_height = 1, src_palette = Some palette,
                        src_pixels = [1, 2, 3, 4]\<rparr> 4 =
           Inr (tim_layout 8 16 1 (clut_tobytes (map (clut_entry palette) [0..<16])) 14 1 1
                  [0x21, 0x43])"
    by (rule image_to_tim_4x1)
  moreover have "length ?packed = (length pixels + 1) div 2"
    by simp
  ultimately show ?thesis
    using enc pairs odd_last by (intro conjI exI [of _ ?packed] allI impI) blast+
qed

theorem pack_4bpp_pairs_witness:
  "\<exists>packed. encode_pixels 4 3 [1, 2, 3] = Inr (1, packed) \<and> length packed = 2 \<and>
     packed ! 0 = 0x21 \<and> last packed = 3"
proof -
  have h: "\<forall>p\<in>set [1, 2, 3 :: byte]. p \<le> 15"
    by simp
  from pack_4bpp_pairs [OF h, of 3 "[]"]
  obtain packed where p: "encode_pixels 4 3 [1, 2, 3] = Inr ((3 + 3) div 4, packed)"
      "length packed = (length [1, 2, 3 :: byte] + 1) div 2"
      "\<forall>k. 2 * k + 1 < length [1, 2, 3 :: byte] \<longrightarrow>
         packed ! k = push_bit 4 ([1, 2, 3] ! (2 * k + 1)) OR [1, 2, 3] ! (2 * k)"
      "odd (length [1, 2, 3 :: byte]) \<longrightarrow>
         last packed = [1, 2, 3] ! (length [1, 2, 3 :: byte] - 1) \<and> drop_bit 4 (last packed) = 0"
    by blast
  from p(3) [rule_format, of 0] have "packed ! 0 = 0x21"
    by simp
  moreover from p(4) have "last packed = 3"
    by simp
  ultimately show ?thesis
    using p(1,2) by simp
qed

text \<open>
  C6 (as the code has it). A 4bpp encoding never fails on an index above 15: for an image with a
  palette whose block size, width field and height fit their fields, the encoder returns the
  file, in which every index was first clipped to at most 15 and then packed. The image with
  the single index 16 is written with the pixel byte 0x0F.
\<close>

theorem encode_4bpp_clips:
  assumes "src_palette img = Some palette"
    and "12 + (length (src_pixels img) + 1) div 2 < 2 ^ 32"
    and "(src_width img + 3) div 4 < 2 ^ 16" and "src_height img < 2 ^ 16"
  shows "image_to_tim img 4 =
           Inr (tim_layout 8 16 1 (clut_tobytes (map (clut_entry palette) [0..<16]))
                  (12 + (length (src_pixels img) + 1) div 2)
                  ((src_width img + 3) div 4) (src_height img)
                  (map (pair_byte (map (\<lambda>p. min p 15) (src_pixels img)))
                     [0..<(length (src_pixels img) + 1) div 2]))"
proof -
  have "encode_pixels 4 (src_width img) (src_pixels img) =
          Inr ((src_width img + 3) div 4,
               map (pair_byte (map (\<lambda>p. min p 15) (src_pixels img)))
                 [0..<(length (src_pixels img) + 1) div 2])"
    by (simp add: encode_pixels_4bpp clip_min)
  from image_to_tim_eq [OF _ assms(1) this] show ?thesis
    using assms(2-4) by simp
qed

theorem encode_4bpp_clips_witness:
  "image_to_tim \<lparr>src_width = 2, src_height = 1, src_palette = Some [], src_pixels = [200, 3]\<rparr> 4 =
     Inr (tim_layout 8 16 1 (clut_tobytes (map (clut_entry []) [0..<16])) 13 1 1 [0x3F])"
  using encode_4bpp_clips [of "\<lparr>src_width = 2, src_height = 1, src_palette = Some [], src_pixels = [200, 3]\<rparr>" "[]"]
  by (simp add: pair_byte_def)

theorem encode_out_of_range_counterexample:
  "\<not> (16 :: byte) \<le> 15 \<and>
   image_to_tim \<lparr>src_width = 1, src_height = 1, src_palette = Some [], src_pixels = [16]\<rparr> 4 =
     Inr (tim_layout 8 16 1 (clut_tobytes (map (clut_entry []) [0..<16])) 13 1 1 [0x0F])"
proof -
  have "encode_pixels 4 1 [16] = Inr (1, [0x0F])"
    by (simp add: encode_pixels_4bpp clip_min pair_byte_def)
  then have "encode_pixels 4
          (src_width \<lparr>src_width = 1, src_height = 1, src_palette = Some [], src_pixels = [16]\<rparr>)
          (src_pixels \<lparr>src_width = 1, src_height = 1, src_palette = Some [], src_pixels = [16]\<rparr>) =
        Inr (1, [0x0F])"
    by simp
  from image_to_tim_eq [where palette = "[]", OF _ _ this] show ?thesis
    by simp
qed

text \<open>
  C1 (as the code has it). A file the encoder returns stores the width field
  \<open>(width + 3) div 4\<close> for 4bpp and \<open>(width + 1) div 2\<close> for 8bpp. The decoder's width for
  that field is the image's width exactly when the width is a multiple of 4 (4bpp) or of 2
  (8bpp); for such a width, and pixel data of \<open>width * height\<close> indices, decoding the file
  succeeds and gives an image of the same width and height. A 1x1 image written as 4bpp gets
  the width field 1, which the decoder reads as 4 pixels, and its decoding fails.
\<close>

theorem encode_decode_width:
  assumes "bpp = 4 \<or> bpp = 8" and "image_to_tim img bpp = Inr file"
    and "length (src_pixels img) = src_width img * src_height img"
  shows "(\<exists>palette pixel_bytes. src_palette img = Some palette \<and>
            file = tim_layout (if bpp = 4 then 8 else 9) (if bpp = 4 then 16 else 256) 1
                     (clut_tobytes (map (clut_entry palette) [0..<if bpp = 4 then 16 else 256]))
                     (12 + length pixel_bytes)
                     (if bpp = 4 then (src_width img + 3) div 4 else (src_width img + 1) div 2)
                     (src_height img) pixel_bytes)
       \<and> (pixel_width bpp
             (if bpp = 4 then (src_width img + 3) div 4 else (src_width img + 1) div 2) =
             src_width img
           \<longleftrightarrow> (if bpp = 4 then 4 else 2) dvd src_width img)
       \<and> ((if bpp = 4 then 4 else 2) dvd src_width img \<longrightarrow>
            (\<exists>out. read_tim file 0 = Inr out \<and> img_width out = src_width img \<and>
                   img_height out = src_height img))"
proof -
  let ?n = "if bpp = 4 then 16 else 256 :: nat"
  let ?ww = "if bpp = 4 then (src_width img + 3) div 4 else (src_width img + 1) div 2"
  let ?w = "src_width img" and ?h = "src_height img"
  from assms(1,2) obtain palette where pal: "src_palette img = Some palette"
    by (cases "src_palette img") (auto simp add: image_to_tim_def)
  from encode_pixels_length [OF assms(1), of ?w "src_pixels img"]
  obtain pixel_bytes where enc: "encode_pixels bpp ?w (src_pixels img) = Inr (?ww, pixel_bytes)"
    and len: "length pixel_bytes =
                (if bpp = 4 then (length (src_pixels img) + 1) div 2 else length (src_pixels img))"
    by blast
  let ?cs = "map (clut_entry palette) [0..<?n]"
  let ?file = "tim_layout (if bpp = 4 then 8 else 9) ?n 1 (clut_tobytes ?cs)
                 (12 + length pixel_bytes) ?ww ?h pixel_bytes"
  from image_to_tim_eq [OF assms(1) pal enc] assms(2)
  have fits: "12 + length pixel_bytes < 2 ^ 32 \<and> ?ww < 2 ^ 16 \<and> ?h < 2 ^ 16"
    and fl: "file = ?file"
    by (simp_all split: if_splits)
  have inv: "pixel_width bpp ?ww = ?w \<longleftrightarrow> (if bpp = 4 then 4 else 2) dvd ?w"
    using assms(1) pixel_width_inverse [of ?w] by auto
  have dec: "\<exists>out. read_tim file 0 = Inr out \<and> img_width out = ?w \<and> img_height out = ?h"
    if d: "(if bpp = 4 then 4 else 2) dvd ?w"
  proof -
    from d inv have pw: "pixel_width bpp ?ww = ?w" by simp
    have "length ?cs = ?n" by simp
    from read_tim_encoded [OF assms(1) this, of "12 + length pixel_bytes" ?ww ?h pixel_bytes] fits
    have rt: "read_tim file 0 = decode_pixels bpp (Some (map word_of_int ?cs)) ?w ?h pixel_bytes"
      unfolding fl pw by blast
    from assms(1) show ?thesis
    proof
      assume b: "bpp = 4"
      have "decode_pixels 4 (Some (map word_of_int ?cs)) ?w ?h pixel_bytes =
              Inr \<lparr>img_width = ?w, img_height = ?h,
                   img_pixels = map expand (map (\<lambda>i. map word_of_int ?cs ! unat i)
                                  (map (nibble_of pixel_bytes) [0..<?w * ?h]))\<rparr>"
        using b len assms(3) by (intro decode_4bpp_ok) simp_all
      with rt b show ?thesis by simp
    next
      assume b: "bpp = 8"
      have "decode_pixels 8 (Some (map word_of_int ?cs)) ?w ?h pixel_bytes =
              Inr \<lparr>img_width = ?w, img_height = ?h,
                   img_pixels = map expand (map (\<lambda>i. map word_of_int ?cs ! unat i)
                                  (take (?w * ?h) pixel_bytes))\<rparr>"
        using b len assms(3) by (intro decode_8bpp_ok) simp_all
      with rt b show ?thesis by simp
    qed
  qed
  from pal fl have "\<exists>palette pixel_bytes. src_palette img = Some palette \<and>
            file = tim_layout (if bpp = 4 then 8 else 9) ?n 1
                     (clut_tobytes (map (clut_entry palette) [0..<?n]))
                     (12 + length pixel_bytes) ?ww ?h pixel_bytes"
    by blast
  with inv dec show ?thesis by blast
qed

theorem encode_decode_width_counterexample:
  "image_to_tim \<lparr>src_width = 1, src_height = 1, src_palette = Some [], src_pixels = [1]\<rparr> 4 =
     Inr (tim_layout 8 16 1 (clut_tobytes (map (clut_entry []) [0..<16])) 13 1 1 [1])
   \<and> read_tim (tim_layout 8 16 1 (clut_tobytes (map (clut_entry []) [0..<16])) 13 1 1 [1]) 0 =
       Inl IndexError
   \<and> pixel_width 4 ((1 + 3) div 4) = 4"
proof -
  have "encode_pixels 4 1 [1] = Inr (1, [1])"
    by (simp add: encode_pixels_4bpp clip_min pair_byte_def)
  then have "encode_pixels 4
          (src_width \<lparr>src_width = 1, src_height = 1, src_palette = Some [], src_pixels = [1]\<rparr>)
          (src_pixels \<lparr>src_width = 1, src_height = 1, src_palette = Some [], src_pixels = [1]\<rparr>) =
        Inr (1, [1])"
    by simp
  from image_to_tim_eq [where palette = "[]", OF _ _ this]
  have e: "image_to_tim \<lparr>src_width = 1, src_height = 1, src_palette = Some [], src_pixels = [1]\<rparr> 4 =
     Inr (tim_layout 8 16 1 (clut_tobytes (map (clut_entry []) [0..<16])) 13 1 1 [1])"
    by simp
  have "length (map (clut_entry []) [0..<16]) = (if (4 :: nat) = 4 then 16 else 256)"
    by simp
  from read_tim_encoded [OF _ this, of 13 1 1 "[1]"]
  have "read_tim (tim_layout 8 16 1 (clut_tobytes (map (clut_entry []) [0..<16])) 13 1 1 [1]) 0 =
          decode_pixels 4 (Some (map word_of_int (map (clut_entry []) [0..<16])))
            (pixel_width 4 1) 1 [1]"
    by simp
  also have "\<dots> = Inl IndexError"
    by (simp add: decode_pixels_def unpack_4bpp_eq pixel_width_def)
  finally show ?thesis
    using e by (simp add: pixel_width_def)
qed

theorem encode_decode_width_witness:
  "\<exists>out. read_tim (tim_layout 8 16 1 (clut_tobytes (map (clut_entry []) [0..<16])) 14 1 1
                     [0x21, 0x43]) 0 = Inr out \<and> img_width out = 4 \<and> img_height out = 1"
  using encode_decode_width [OF _ image_to_tim_4x1 [of "[]"]] by simp

text \<open>
  C4 (as the code has it). When the CLUT block is read, its payload is taken as a flat
  sequence of 16-bit colors. If the header's width is positive and divides the number of colors,
  the table has (number of colors) div width rows of width columns, item \<open>c\<close> of row \<open>r\<close>
  being color \<open>r * width + c\<close>; otherwise the table is the single row of all colors in their
  order. The number of rows comes from the payload, not from the header's height: it is the
  header's height when the payload holds width * height colors. A block with width 2, height 1
  and four colors is read as two rows.
\<close>

theorem clut_reshape:
  assumes "read_clut f = Inr (clut, clut_w, clut_h, rest)"
  shows "\<exists>clut_block_size clut_data clut_colors.
           unpack_I (take 4 f) = Inr clut_block_size \<and>
           f_read (int clut_block_size - 12) (drop 12 f) = Inr (clut_data, rest) \<and>
           frombuffer_u16 clut_data = Inr clut_colors \<and>
           (if 0 < clut_w \<and> length clut_colors mod clut_w = 0
            then length clut = length clut_colors div clut_w \<and>
                 (\<forall>r c. r < length clut \<and> c < clut_w \<longrightarrow>
                    length (clut ! r) = clut_w \<and> clut ! r ! c = clut_colors ! (r * clut_w + c))
            else clut = [clut_colors]) \<and>
           (0 < clut_w \<and> length clut_colors = clut_w * clut_h \<longrightarrow> length clut = clut_h)"
proof -
  from read_clut_parts [OF assms]
  obtain clut_block_size x y clut_data clut_colors where
    p: "unpack_I (take 4 f) = Inr clut_block_size"
       "f_read (int clut_block_size - 12) (drop 12 f) = Inr (clut_data, rest)"
       "frombuffer_u16 clut_data = Inr clut_colors"
       "clut = reshape_clut clut_colors clut_w"
    by blast
  have shape: "if 0 < clut_w \<and> length clut_colors mod clut_w = 0
            then length clut = length clut_colors div clut_w \<and>
                 (\<forall>r c. r < length clut \<and> c < clut_w \<longrightarrow>
                    length (clut ! r) = clut_w \<and> clut ! r ! c = clut_colors ! (r * clut_w + c))
            else clut = [clut_colors]"
  proof (cases "0 < clut_w \<and> length clut_colors mod clut_w = 0")
    case True
    then show ?thesis
      using reshape_clut_rows [of clut_w clut_colors] by (simp add: p(4))
  next
    case False
    then show ?thesis
      using reshape_clut_fallback [of clut_w clut_colors] by (auto simp add: p(4))
  qed
  have "length clut = clut_h" if "0 < clut_w \<and> length clut_colors = clut_w * clut_h"
    using that reshape_clut_rows(1) [of clut_w clut_colors] by (simp add: p(4))
  with p(1-3) shape show ?thesis by blast
qed

theorem clut_reshape_witness:
  "\<exists>clut_colors. frombuffer_u16 [1, 0, 2, 0, 3, 0, 4, 0] = Inr clut_colors \<and>
      length [[1, 2], [3, 4 :: u16]] = length clut_colors div 2"
  using clut_reshape [OF read_clut_square]
  by (auto simp add: unpack_I_def f_read_def split: if_splits)

theorem clut_reshape_counterexample:
  "read_clut [20, 0, 0, 0, 0, 0, 0, 0, 2, 0, 1, 0, 1, 0, 2, 0, 3, 0, 4, 0] =
     Inr ([[1, 2], [3, 4]], 2, 1, [])"
  by (rule read_clut_two_rows)

text \<open>
  C5 (as the code has it). For a file with a CLUT of at least one row and a palette index at or
  above the number of rows, the selection of the palette row does not fail and is the first
  row, and decoding gives exactly what decoding with index 0 gives: the image block decoded
  with the first row. A file whose CLUT block has size 12 has a table of no rows, and its
  decoding fails with \<open>IndexError\<close> for index 5 as for index 0.
\<close>

theorem palette_index_clamped:
  assumes "read_header file = Inr (bpp, True, f1)"
    and "read_clut f1 = Inr (clut, clut_w, clut_h, f2)"
    and "clut \<noteq> []"
    and "int (length clut) \<le> p"
  shows "select_palette clut p = Inr (clut ! 0)
       \<and> read_tim file p = read_tim file 0
       \<and> read_tim file p =
           (case read_image_header bpp f2 of Inl e \<Rightarrow> Inl e
            | Inr (w, h, raw_data) \<Rightarrow> decode_pixels bpp (Some (clut ! 0)) w h raw_data)"
proof -
  have s0: "select_palette clut 0 = Inr (clut ! 0)"
    using assms(3) by (rule select_palette_row0)
  have sp: "select_palette clut p = Inr (clut ! 0)"
    using assms(4) s0 by (simp add: select_palette_clamp)
  show ?thesis
    by (simp add: read_tim_select [OF assms(1,2)] sp s0)
qed

theorem palette_index_clamped_witness:
  "read_tim (tim_layout 8 2 2 [0, 0, 0xFF, 0x7F, 0x1F, 0, 0xE0, 3] 14 1 1 [0x10, 0x01]) 2 =
     Inr \<lparr>img_width = 4, img_height = 1,
          img_pixels = [(0, 0, 0), (248, 248, 248), (248, 248, 248), (0, 0, 0)]\<rparr>
   \<and> select_palette [[0, 0x7FFF], [0x1F, 0x3E0]] 2 = Inr [0, 0x7FFF]"
proof -
  from two_row_file obtain f1 f2 where
    h: "read_header (tim_layout 8 2 2 [0, 0, 0xFF, 0x7F, 0x1F, 0, 0xE0, 3] 14 1 1 [0x10, 0x01]) =
          Inr (4, True, f1)"
       "read_clut f1 = Inr ([[0, 0x7FFF], [0x1F, 0x3E0]], 2, 2, f2)"
    by blast
  have p: "[[0, 0x7FFF], [0x1F, 0x3E0 :: u16]] \<noteq> []"
    "int (length [[0, 0x7FFF], [0x1F, 0x3E0 :: u16]]) \<le> 2"
    by simp_all
  note t = palette_index_clamped [OF h p]
  from t have "read_tim (tim_layout 8 2 2 [0, 0, 0xFF, 0x7F, 0x1F, 0, 0xE0, 3] 14 1 1 [0x10, 0x01]) 2 =
      read_tim (tim_layout 8 2 2 [0, 0, 0xFF, 0x7F, 0x1F, 0, 0xE0, 3] 14 1 1 [0x10, 0x01]) 0"
    by blast
  moreover from t have "select_palette [[0, 0x7FFF], [0x1F, 0x3E0]] 2 = Inr [0, 0x7FFF]"
    by simp
  ultimately show ?thesis
    by (simp only: two_row_decode(1) simp_thms)
qed

theorem palette_index_clamped_counterexample:
  "read_header [16, 0, 0, 0, 8, 0, 0, 0, 12, 0, 0, 0, 0, 0, 0, 0, 16, 0, 0, 0,
                14, 0, 0, 0, 0, 0, 0, 0, 1, 0, 1, 0, 0x10, 0x01] =
     Inr (4, True, [12, 0, 0, 0, 0, 0, 0, 0, 16, 0, 0, 0,
                    14, 0, 0, 0, 0, 0, 0, 0, 1, 0, 1, 0, 0x10, 0x01])
   \<and> read_clut [12, 0, 0, 0, 0, 0, 0, 0, 16, 0, 0, 0,
                14, 0, 0, 0, 0, 0, 0, 0, 1, 0, 1, 0, 0x10, 0x01] =
     Inr ([], 16, 0, [14, 0, 0, 0, 0, 0, 0, 0, 1, 0, 1, 0, 0x10, 0x01])
   \<and> int (length ([] :: u16 list list)) \<le> 5
   \<and> read_tim [16, 0, 0, 0, 8, 0, 0, 0, 12, 0, 0, 0, 0, 0, 0, 0, 16, 0, 0, 0,
               14, 0, 0, 0, 0, 0, 0, 0, 1, 0, 1, 0, 0x10, 0x01] 5 = Inl IndexError
   \<and> read_tim [16, 0, 0, 0, 8, 0, 0, 0, 12, 0, 0, 0, 0, 0, 0, 0, 16, 0, 0, 0,
               14, 0, 0, 0, 0, 0, 0, 0, 1, 0, 1, 0, 0x10, 0x01] 0 = Inl IndexError"
proof -
  have rh: "read_header [16, 0, 0, 0, 8, 0, 0, 0, 12, 0, 0, 0, 0, 0, 0, 0, 16, 0, 0, 0,
                14, 0, 0, 0, 0, 0, 0, 0, 1, 0, 1, 0, 0x10, 0x01] =
     Inr (4, True, [12, 0, 0, 0, 0, 0, 0, 0, 16, 0, 0, 0,
                    14, 0, 0, 0, 0, 0, 0, 0, 1, 0, 1, 0, 0x10, 0x01])"
    by (simp add: read_header_def unpack_I_def bpp_of_mode_def)
  have rc: "read_clut [12, 0, 0, 0, 0, 0, 0, 0, 16, 0, 0, 0,
                14, 0, 0, 0, 0, 0, 0, 0, 1, 0, 1, 0, 0x10, 0x01] =
     Inr ([], 16, 0, [14, 0, 0, 0, 0, 0, 0, 0, 1, 0, 1, 0, 0x10, 0x01])"
    by (simp add: read_clut_def unpack_I_def unpack_4H_def f_read_def frombuffer_u16_def
        reshape_clut_def reshape_rows_def)
  have "select_palette [] p = Inl IndexError" if "0 \<le> p" for p
    using that by (simp add: select_palette_def Let_def)
  then have "read_tim [16, 0, 0, 0, 8, 0, 0, 0, 12, 0, 0, 0, 0, 0, 0, 0, 16, 0, 0, 0,
               14, 0, 0, 0, 0, 0, 0, 0, 1, 0, 1, 0, 0x10, 0x01] p = Inl IndexError"
    if "0 \<le> p" for p
    using that by (simp add: read_tim_select [OF rh rc])
  from this [of 5] this [of 0] rh rc show ?thesis
    by simp
qed



end
